theory Spec2Isabelle
  imports Main "HOL-Library.Sublist"
begin

section \<open>Text and whitespace\<close>

text \<open>
  Page text is a Python \<open>str\<close>, modelled as a \<open>string\<close> whose characters are the code
  points below 256. \<open>\s\<close> in a \<open>str\<close> pattern, \<open>str.strip()\<close> and \<open>str.split()\<close> all use the
  same test (\<open>str.isspace\<close> on one character); below 256 it accepts the code points
  9 to 13, 28 to 32, 0x85 and 0xA0.
\<close>

definition is_space :: "char \<Rightarrow> bool" where
  "is_space c \<longleftrightarrow>
     c \<in> set [CHR 0x09, CHR 0x0A, CHR 0x0B, CHR 0x0C, CHR 0x0D,
               CHR 0x1C, CHR 0x1D, CHR 0x1E, CHR 0x1F, CHR 0x20, CHR 0x85, CHR 0xA0]"

section \<open>The pattern language of the rule tables\<close>

text \<open>
  The patterns of \<open>PATTERNS_TYPE_1\<close> and \<open>PATTERNS_TYPE_2\<close> use literal characters, the
  classes \<open>\s\<close>, \<open>[^\n]\<close> and \<open>[\s\S]\<close>, the greedy \<open>+\<close> and the lazy \<open>+?\<close> on one class,
  one capturing group and one look-ahead \<open>(?=...)\<close>. A pattern is the list of its nodes.
\<close>

datatype cls =
    Lit char      \<comment> \<open>a literal character (\<open>\.\<close> is the literal dot)\<close>
  | Space         \<comment> \<open>\<open>\s\<close>\<close>
  | NotNewline    \<comment> \<open>\<open>[^\n]\<close>\<close>
  | AnyChar       \<comment> \<open>\<open>[\s\S]\<close>\<close>

fun cls_ok :: "cls \<Rightarrow> char \<Rightarrow> bool" where
  "cls_ok (Lit a) c = (c = a)"
| "cls_ok Space c = is_space c"
| "cls_ok NotNewline c = (c \<noteq> CHR 0x0A)"
| "cls_ok AnyChar c = True"

datatype node =
    One cls               \<comment> \<open>one character of the class\<close>
  | Plus cls              \<comment> \<open>\<open>c+\<close>, greedy\<close>
  | PlusLazy cls          \<comment> \<open>\<open>c+?\<close>, lazy\<close>
  | Group "node list"     \<comment> \<open>\<open>(...)\<close>, group 1\<close>
  | Ahead "node list"     \<comment> \<open>\<open>(?=...)\<close>\<close>

type_synonym regex = "node list"

definition lit :: "string \<Rightarrow> regex" where
  "lit s = map (\<lambda>c. One (Lit c)) s"

text \<open>
  The remainders of the input after one or more characters of a class, in the order in
  which the backtracking matcher tries them: the longest run first for the greedy
  \<open>+\<close>, the shortest first for the lazy \<open>+?\<close>.
\<close>

fun plus_greedy :: "cls \<Rightarrow> string \<Rightarrow> string list" where
  "plus_greedy c [] = []"
| "plus_greedy c (x # xs) = (if cls_ok c x then plus_greedy c xs @ [xs] else [])"

fun plus_lazy :: "cls \<Rightarrow> string \<Rightarrow> string list" where
  "plus_lazy c [] = []"
| "plus_lazy c (x # xs) = (if cls_ok c x then xs # plus_lazy c xs else [])"

text \<open>
  \<open>run r s g\<close> matches \<open>r\<close> at the start of \<open>s\<close>, with \<open>g\<close> the text of group 1 so far
  (\<open>None\<close> while the group has not taken part). It lists every way the match can end, as
  the remaining input and group 1, in the order in which backtracking finds them; the
  matcher's answer is the first. A look-ahead consumes nothing and is not re-entered
  once it has succeeded.
\<close>

fun run :: "regex \<Rightarrow> string \<Rightarrow> string option \<Rightarrow> (string \<times> string option) list" where
  "run [] s g = [(s, g)]"
| "run (One c # r) s g =
     (case s of [] \<Rightarrow> [] | x # xs \<Rightarrow> if cls_ok c x then run r xs g else [])"
| "run (Plus c # r) s g = concat (map (\<lambda>s'. run r s' g) (plus_greedy c s))"
| "run (PlusLazy c # r) s g = concat (map (\<lambda>s'. run r s' g) (plus_lazy c s))"
| "run (Group b # r) s g =
     concat (map (\<lambda>(s', _). run r s' (Some (take (length s - length s') s))) (run b s g))"
| "run (Ahead b # r) s g =
     (case run b s g of [] \<Rightarrow> [] | (_, g') # _ \<Rightarrow> run r s g')"

text \<open>A match object: only \<open>group(1)\<close> is read by the program.\<close>

datatype match = Match (group1: "string option")

text \<open>\<open>re.search\<close>: the first match at the leftmost position where the pattern matches.\<close>

fun re_search :: "regex \<Rightarrow> string \<Rightarrow> match option" where
  "re_search r s =
     (case run r s None of
        (_, g) # _ \<Rightarrow> Some (Match g)
      | [] \<Rightarrow> (case s of [] \<Rightarrow> None | _ # xs \<Rightarrow> re_search r xs))"

declare re_search.simps [simp del]

section \<open>Pattern definitions\<close>

text \<open>\<open>label\s+([^\n]+)\<close>, the shape of the single-line rules.\<close>

definition single_line :: "string \<Rightarrow> regex" where
  "single_line label = lit label @ [Plus Space, Group [Plus NotNewline]]"

text \<open>\<open>label\s+([\s\S]+?)\s+next\<close>, the shape of the bounded rules.\<close>

definition bounded_capture :: "string \<Rightarrow> string \<Rightarrow> regex" where
  "bounded_capture label nxt = lit label @ [Plus Space, Group [PlusLazy AnyChar], Plus Space] @ lit nxt"

text \<open>\<open>label\s+[^\n]+\s+Name\s+([^\n]+)\<close>, the shape of the two compound rules.\<close>

definition compound_anchor :: "string \<Rightarrow> regex" where
  "compound_anchor label =
     lit label @ [Plus Space, Plus NotNewline, Plus Space] @ lit ''Name''
       @ [Plus Space, Group [Plus NotNewline]]"

definition PATTERNS_TYPE_1 :: "(string \<times> regex) list" where
  "PATTERNS_TYPE_1 =
    [(''Inspection'', [Group [Plus NotNewline], Ahead (Plus Space # lit ''Store ID and Name'')]),
     (''Store ID and Name'', bounded_capture ''Store ID and Name'' ''Tracker''),
     (''Tracker'', bounded_capture ''Tracker'' ''Inspector''),
     (''Inspector'', single_line ''Inspector''),
     (''Project Team PIC'', single_line ''Project Team PIC''),
     (''Project Team Present'', single_line ''Project Team Present''),
     (''Contractor PIC'', single_line ''Contractor PIC''),
     (''Contractor Present'', single_line ''Contractor Present''),
     (''Issue Date'', single_line ''Issue Date''),
     (''Inspection Date'', single_line ''Inspection Date''),
     (''Report Date'', single_line ''Report Date''),
     (''Handover Date'', single_line ''Handover Date'')]"

definition PATTERNS_TYPE_2 :: "(string \<times> regex) list" where
  "PATTERNS_TYPE_2 =
    [(''Document No.'', single_line ''Document No.''),
     (''Audit Title'', single_line ''Audit Title''),
     (''Site Name'', single_line ''Site Name''),
     (''Location'', bounded_capture ''Location'' ''Contractor Present''),
     (''Contractor Present'', single_line ''Contractor Present''),
     (''Contractor Name'', compound_anchor ''Contractor Present''),
     (''Project PIC Present'', single_line ''Project PIC Present''),
     (''Project PIC Name'', compound_anchor ''Project PIC Present''),
     (''Inspected by'', single_line ''Inspected by''),
     (''Inspection Date'', single_line ''Inspection Date''),
     (''Prepared by'', single_line ''Prepared by'')]"

section \<open>Detect PDF type\<close>

definition detect_document_type :: "string \<Rightarrow> string option" where
  "detect_document_type text =
     (if re_search (lit ''Document No.'') text \<noteq> None then Some ''type_2''
      else if re_search (lit ''Store ID and Name'') text \<noteq> None then Some ''type_1''
      else None)"

section \<open>String methods used on a captured value\<close>

text \<open>\<open>str.strip()\<close>: drop the whitespace at both ends.\<close>

definition strip :: "string \<Rightarrow> string" where
  "strip s = rev (dropWhile is_space (rev (dropWhile is_space s)))"

text \<open>
  \<open>str.split()\<close> with no argument: the maximal runs of characters that are not
  whitespace, in order; runs of whitespace separate them and yield no empty string.
\<close>

function split :: "string \<Rightarrow> string list" where
  "split s =
     (case dropWhile is_space s of
        [] \<Rightarrow> []
      | x # w \<Rightarrow> (x # takeWhile (\<lambda>c. \<not> is_space c) w) # split (dropWhile (\<lambda>c. \<not> is_space c) w))"
  by pat_completeness auto
termination
proof (relation "measure length")
  show "wf (measure length)" by simp
next
  fix s :: string and x w
  assume "dropWhile is_space s = x # w"
  then have "length w < length s"
    using length_dropWhile_le [of is_space s] by simp
  moreover have "length (dropWhile (\<lambda>c. \<not> is_space c) w) \<le> length w"
    by (rule length_dropWhile_le)
  ultimately show "(dropWhile (\<lambda>c. \<not> is_space c) w, s) \<in> measure length"
    by simp
qed

declare split.simps [simp del]

text \<open>\<open>sep.join(parts)\<close>.\<close>

fun join :: "string \<Rightarrow> string list \<Rightarrow> string" where
  "join sep [] = []"
| "join sep [x] = x"
| "join sep (x # y # ys) = x @ sep @ join sep (y # ys)"

section \<open>Dictionaries\<close>

text \<open>
  A \<open>dict\<close> keeps its keys in insertion order: \<open>d[k] = v\<close> replaces the value of a key
  that is present, in place, and appends a key that is not. The values of a record are a
  \<open>str\<close> or \<open>None\<close>.
\<close>

type_synonym dict = "(string \<times> string option) list"

fun dict_set :: "dict \<Rightarrow> string \<Rightarrow> string option \<Rightarrow> dict" where
  "dict_set [] k v = [(k, v)]"
| "dict_set ((k', v') # d) k v =
     (if k' = k then (k, v) # d else (k', v') # dict_set d k v)"

definition keys :: "dict \<Rightarrow> string list" where
  "keys d = map fst d"

section \<open>Extract data by type\<close>

text \<open>
  The exceptions that can leave the program. \<open>match.group(1)\<close> of a group that took no
  part in the match is \<open>None\<close>, and \<open>None.strip()\<close> raises \<open>AttributeError\<close>. The archive
  and PDF libraries raise on a file they cannot read (\<open>BadZipFile\<close>, \<open>PdfiumError\<close>, ...):
  \<open>Raised\<close> carries the name of such an exception.
\<close>

datatype py_error = AttributeError | Raised string

text \<open>The two statements that turn a captured text into the stored value.\<close>

definition normalise :: "string \<Rightarrow> string" where
  "normalise g = (let v = strip g in join '' '' (split v))"

text \<open>The \<open>for field, pattern in patterns.items()\<close> loop, with \<open>data\<close> threaded through.\<close>

fun extract_loop :: "(string \<times> regex) list \<Rightarrow> string \<Rightarrow> dict \<Rightarrow> py_error + dict" where
  "extract_loop [] text data = Inr data"
| "extract_loop ((field, pattern) # rest) text data =
     (case re_search pattern text of
        Some m \<Rightarrow>
          (case group1 m of
             None \<Rightarrow> Inl AttributeError
           | Some g \<Rightarrow> extract_loop rest text (dict_set data field (Some (normalise g))))
      | None \<Rightarrow> extract_loop rest text (dict_set data field None))"

definition extract_data_by_type :: "string \<Rightarrow> string option \<Rightarrow> py_error + dict" where
  "extract_data_by_type text doc_type =
     (let patterns = (if doc_type = Some ''type_1'' then PATTERNS_TYPE_1 else PATTERNS_TYPE_2)
      in case extract_loop patterns text [] of
           Inl e \<Rightarrow> Inl e
         | Inr data \<Rightarrow> Inr (dict_set data ''Document Type'' doc_type))"

section \<open>PDF text extraction\<close>

text \<open>
  \<open>pdfium.PdfDocument\<close> belongs to the PDF library and is a parameter: from the bytes of a
  file it raises, or gives the document, here the list of its pages, each page standing
  for what taking its text gives (\<open>get_textpage\<close> and \<open>get_text_bounded\<close>: the text, or
  the exception raised). A document without pages gives the empty text.
\<close>

type_synonym pdf = "(py_error + string) list"

definition extract_text_from_first_page ::
  "('b \<Rightarrow> py_error + pdf) \<Rightarrow> 'b \<Rightarrow> py_error + string"
where
  "extract_text_from_first_page PdfDocument pdf_bytes =
     (case PdfDocument pdf_bytes of
        Inl e \<Rightarrow> Inl e
      | Inr pdf \<Rightarrow>
          (let text_output = Inr ''''
           in if length pdf > 0 then pdf ! 0 else text_output))"

section \<open>The ZIP processor\<close>

text \<open>
  \<open>str.lower()\<close> on one character below 256: the capital letters \<open>A\<close> to \<open>Z\<close> and
  0xC0 to 0xDE without 0xD7 move up by 32.
\<close>

definition lower_char :: "char \<Rightarrow> char" where
  "lower_char c =
     (let n = (of_char c :: nat)
      in if (65 \<le> n \<and> n \<le> 90) \<or> (192 \<le> n \<and> n \<le> 222 \<and> n \<noteq> 215)
         then char_of (n + 32) else c)"

definition lower :: "string \<Rightarrow> string" where
  "lower s = map lower_char s"

definition endswith :: "string \<Rightarrow> string \<Rightarrow> bool" where
  "endswith s suf \<longleftrightarrow> suffix suf s"

text \<open>
  An open archive, as the program uses it: the names of its entries and \<open>z.read(name)\<close>,
  which gives the bytes of an entry or raises.
\<close>

record 'b zipfile =
  namelist :: "string list"
  read :: "string \<Rightarrow> py_error + 'b"

text \<open>
  The loop of \<open>process_zip_file\<close> over \<open>pdf_files\<close>. Nothing in it catches an exception:
  one raised while an entry is read or its text is taken ends the whole call.
\<close>

fun process_loop ::
  "'b zipfile \<Rightarrow> ('b \<Rightarrow> py_error + pdf) \<Rightarrow> string list \<Rightarrow> dict list \<Rightarrow> dict list
     \<Rightarrow> py_error + dict list \<times> dict list"
where
  "process_loop z PdfDocument [] all_data_type_1 all_data_type_2 =
     Inr (all_data_type_1, all_data_type_2)"
| "process_loop z PdfDocument (pdf_name # rest) all_data_type_1 all_data_type_2 =
     (case read z pdf_name of
        Inl e \<Rightarrow> Inl e
      | Inr pdf_bytes \<Rightarrow>
          (case extract_text_from_first_page PdfDocument pdf_bytes of
             Inl e \<Rightarrow> Inl e
           | Inr text \<Rightarrow>
               (let doc_type = detect_document_type text
                in if doc_type = None
                   then process_loop z PdfDocument rest all_data_type_1 all_data_type_2
                   else
                     (case extract_data_by_type text doc_type of
                        Inl e \<Rightarrow> Inl e
                      | Inr data0 \<Rightarrow>
                          (let data = dict_set data0 ''Source File'' (Some pdf_name)
                           in if doc_type = Some ''type_1''
                              then process_loop z PdfDocument rest
                                     (all_data_type_1 @ [data]) all_data_type_2
                              else process_loop z PdfDocument rest
                                     all_data_type_1 (all_data_type_2 @ [data]))))))"

text \<open>
  \<open>process_zip_file\<close>: \<open>zipfile.ZipFile\<close> opens the uploaded bytes or raises, and is a
  parameter like \<open>PdfDocument\<close>. The result is the pair of lists, or the exception that
  left the call.
\<close>

definition process_zip_file ::
  "('a \<Rightarrow> py_error + 'b zipfile) \<Rightarrow> ('b \<Rightarrow> py_error + pdf) \<Rightarrow> 'a
     \<Rightarrow> py_error + dict list \<times> dict list"
where
  "process_zip_file ZipFile PdfDocument uploaded_zip_bytes =
     (case ZipFile uploaded_zip_bytes of
        Inl e \<Rightarrow> Inl e
      | Inr z \<Rightarrow>
          (let pdf_files = filter (\<lambda>f. endswith (lower f) ''.pdf'') (namelist z)
           in process_loop z PdfDocument pdf_files [] []))"

section \<open>Auxiliary notions for the proofs\<close>

text \<open>A pattern whose top level holds a capturing group: group 1 takes part in every match.\<close>

fun captures :: "regex \<Rightarrow> bool" where
  "captures [] = False"
| "captures (Group b # r) = True"
| "captures (n # r) = captures r"

text \<open>What one turn of the extraction loop stores for a rule, when group 1 took part.\<close>

definition stored :: "regex \<Rightarrow> string \<Rightarrow> string option" where
  "stored pattern text =
     (case re_search pattern text of
        None \<Rightarrow> None
      | Some m \<Rightarrow> map_option normalise (group1 m))"

text \<open>The rule table that \<open>extract_data_by_type\<close> selects.\<close>

definition rules :: "string option \<Rightarrow> (string \<times> regex) list" where
  "rules doc_type = (if doc_type = Some ''type_1'' then PATTERNS_TYPE_1 else PATTERNS_TYPE_2)"


text \<open>
  \<open>produced z PdfDocument files ty data\<close>: \<open>data\<close> is the record that one turn of the
  processor's loop builds for an entry of \<open>files\<close> whose page text resolves to \<open>ty\<close>.
\<close>

definition produced ::
  "'b zipfile \<Rightarrow> ('b \<Rightarrow> py_error + pdf) \<Rightarrow> string list \<Rightarrow> string \<Rightarrow> dict \<Rightarrow> bool"
where
  "produced z PdfDocument files ty data \<longleftrightarrow>
     (\<exists>pdf_name pdf_bytes text data0.
        pdf_name \<in> set files
      \<and> read z pdf_name = Inr pdf_bytes
      \<and> extract_text_from_first_page PdfDocument pdf_bytes = Inr text
      \<and> detect_document_type text = Some ty
      \<and> extract_data_by_type text (Some ty) = Inr data0
      \<and> data = dict_set data0 ''Source File'' (Some pdf_name))"

text \<open>
  \<open>filed z PdfDocument pdf_name all_1 all_2\<close>: the entry was read, and if its page text
  resolves to a type its record is in the list of that type.
\<close>

definition filed ::
  "'b zipfile \<Rightarrow> ('b \<Rightarrow> py_error + pdf) \<Rightarrow> string \<Rightarrow> dict list \<Rightarrow> dict list \<Rightarrow> bool"
where
  "filed z PdfDocument pdf_name all_1 all_2 \<longleftrightarrow>
     (\<exists>pdf_bytes text data0.
        read z pdf_name = Inr pdf_bytes
      \<and> extract_text_from_first_page PdfDocument pdf_bytes = Inr text
      \<and> extract_data_by_type text (detect_document_type text) = Inr data0
      \<and> (detect_document_type text = Some ''type_1''
           \<longrightarrow> dict_set data0 ''Source File'' (Some pdf_name) \<in> set all_1)
      \<and> (detect_document_type text = Some ''type_2''
           \<longrightarrow> dict_set data0 ''Source File'' (Some pdf_name) \<in> set all_2))"
text \<open>
  The shape of a stored value: a list of words, each not empty and free of whitespace.
\<close>

definition tokens_ok :: "string list \<Rightarrow> bool" where
  "tokens_ok ts \<longleftrightarrow> (\<forall>t \<in> set ts. t \<noteq> [] \<and> (\<forall>c \<in> set t. \<not> is_space c))"

section \<open>Literal patterns\<close>

lemma run_lit_append:
  "run (lit m @ r) s g = (if prefix m s then run r (drop (length m) s) g else [])"
  by (induction m arbitrary: s) (auto simp: lit_def split: list.splits)

lemma run_lit: "run (lit m) s g = (if prefix m s then [(drop (length m) s, g)] else [])"
  using run_lit_append [of m "[]" s g] by simp

lemma re_search_lit: "re_search (lit m) s \<noteq> None \<longleftrightarrow> sublist m s"
proof (induction s)
  case Nil
  show ?case by (subst re_search.simps) (simp add: run_lit)
next
  case (Cons x xs)
  show ?case
    using Cons.IH by (subst re_search.simps) (simp add: run_lit sublist_Cons_right)
qed

section \<open>The extraction loop in closed form\<close>

lemma run_group_set:
  "(s', g') \<in> set (run r s g) \<Longrightarrow> g \<noteq> None \<or> captures r \<Longrightarrow> g' \<noteq> None"
proof (induction r s g arbitrary: s' g' rule: run.induct)
  case (6 b r s g)
  from "6.prems"(1) obtain t h rest where b: "run b s g = (t, h) # rest"
    and r: "(s', g') \<in> set (run r s h)"
    by (cases "run b s g") auto
  show ?case
  proof (cases "g = None")
    case True
    with "6.prems"(2) have "captures r" by simp
    with "6.IH"(2) [OF b refl r] show ?thesis by simp
  next
    case False
    from b have "(t, h) \<in> set (run b s g)" by simp
    from "6.IH"(1) [OF this] False have "h \<noteq> None" by simp
    with "6.IH"(2) [OF b refl r] show ?thesis by simp
  qed
qed (auto split: list.splits if_splits)

lemma re_search_result:
  "re_search r s = Some m \<Longrightarrow> \<exists>t s' rest. suffix t s \<and> run r t None = (s', group1 m) # rest"
proof (induction s)
  case Nil
  then show ?case by (subst (asm) re_search.simps) (auto split: list.splits)
next
  case (Cons x xs)
  show ?case
  proof (cases "run r (x # xs) None")
    case Nil
    with Cons.prems have "re_search r xs = Some m"
      by (subst (asm) re_search.simps) simp
    with Cons.IH obtain t s' rest where "suffix t xs" "run r t None = (s', group1 m) # rest"
      by blast
    then show ?thesis by (blast intro: suffix_ConsI)
  next
    case (Cons p ps)
    with Cons.prems show ?thesis
      by (subst (asm) re_search.simps) (auto split: prod.splits)
  qed
qed

lemma re_search_group:
  assumes "re_search r s = Some m" "captures r"
  shows "\<exists>g. group1 m = Some g"
proof -
  from re_search_result [OF assms(1)] obtain t s' rest
    where "run r t None = (s', group1 m) # rest" by blast
  then have "(s', group1 m) \<in> set (run r t None)" by simp
  from run_group_set [OF this] assms(2) show ?thesis by auto
qed

lemma extract_loop_fold:
  "\<forall>(f, p) \<in> set ps. captures p \<Longrightarrow>
   extract_loop ps text data = Inr (fold (\<lambda>(f, p) d. dict_set d f (stored p text)) ps data)"
proof (induction ps arbitrary: data)
  case Nil
  show ?case by simp
next
  case (Cons fp ps)
  obtain f p where fp: "fp = (f, p)" by (cases fp)
  from Cons.prems fp have cp: "captures p" and rest: "\<forall>(f, p) \<in> set ps. captures p" by auto
  show ?case
  proof (cases "re_search p text")
    case None
    then show ?thesis using Cons.IH [OF rest] by (simp add: fp stored_def)
  next
    case (Some m)
    from re_search_group [OF Some cp] obtain g where "group1 m = Some g" ..
    with Some show ?thesis using Cons.IH [OF rest] by (simp add: fp stored_def)
  qed
qed

lemma keys_dict_set_new: "k \<notin> set (keys d) \<Longrightarrow> dict_set d k v = d @ [(k, v)]"
  by (induction d) (auto simp: keys_def)

lemma fold_dict_set_distinct:
  "distinct (map fst ps) \<Longrightarrow> set (map fst ps) \<inter> set (keys data) = {} \<Longrightarrow>
   fold (\<lambda>(f, p) d. dict_set d f (h p)) ps data = data @ map (\<lambda>(f, p). (f, h p)) ps"
proof (induction ps arbitrary: data)
  case Nil
  show ?case by simp
next
  case (Cons fp ps)
  obtain f p where fp: "fp = (f, p)" by (cases fp)
  from Cons.prems fp have new: "f \<notin> set (keys data)" by auto
  have "set (map fst ps) \<inter> set (keys (data @ [(f, h p)])) = {}"
    using Cons.prems fp by (auto simp: keys_def)
  moreover have "distinct (map fst ps)" using Cons.prems by simp
  ultimately show ?case
    using Cons.IH [of "data @ [(f, h p)]"] by (simp add: fp keys_dict_set_new [OF new])
qed

lemma captures_lit_append: "captures (lit l @ r) = captures r"
  by (induction l) (simp_all add: lit_def)

lemma captures_T1: "\<forall>(f, p) \<in> set PATTERNS_TYPE_1. captures p"
  by (simp add: PATTERNS_TYPE_1_def single_line_def bounded_capture_def captures_lit_append)

lemma captures_T2: "\<forall>(f, p) \<in> set PATTERNS_TYPE_2. captures p"
  by (simp add: PATTERNS_TYPE_2_def single_line_def bounded_capture_def compound_anchor_def captures_lit_append)

lemma fields_T1:
  "map fst PATTERNS_TYPE_1 =
     [''Inspection'', ''Store ID and Name'', ''Tracker'', ''Inspector'', ''Project Team PIC'',
      ''Project Team Present'', ''Contractor PIC'', ''Contractor Present'', ''Issue Date'',
      ''Inspection Date'', ''Report Date'', ''Handover Date'']"
  by (simp add: PATTERNS_TYPE_1_def)

lemma fields_T2:
  "map fst PATTERNS_TYPE_2 =
     [''Document No.'', ''Audit Title'', ''Site Name'', ''Location'', ''Contractor Present'',
      ''Contractor Name'', ''Project PIC Present'', ''Project PIC Name'', ''Inspected by'',
      ''Inspection Date'', ''Prepared by'']"
  by (simp add: PATTERNS_TYPE_2_def)

lemma distinct_T1: "distinct (map fst PATTERNS_TYPE_1)"
  unfolding fields_T1 by simp

lemma distinct_T2: "distinct (map fst PATTERNS_TYPE_2)"
  unfolding fields_T2 by simp

lemma doc_type_fresh_T1: "''Document Type'' \<notin> set (map fst PATTERNS_TYPE_1)"
  unfolding fields_T1 by simp

lemma doc_type_fresh_T2: "''Document Type'' \<notin> set (map fst PATTERNS_TYPE_2)"
  unfolding fields_T2 by simp

lemma extract_loop_rules:
  "extract_loop (rules doc_type) text [] = Inr (map (\<lambda>(f, p). (f, stored p text)) (rules doc_type))"
proof -
  have c: "\<forall>(f, p) \<in> set (rules doc_type). captures p"
    using captures_T1 captures_T2 by (simp add: rules_def)
  have d: "distinct (map fst (rules doc_type))"
    using distinct_T1 distinct_T2 by (simp add: rules_def)
  show ?thesis
    using fold_dict_set_distinct [OF d, of "[]" "\<lambda>p. stored p text"]
    by (simp add: extract_loop_fold [OF c] keys_def)
qed

lemma extract_data_by_type_eq:
  "extract_data_by_type text doc_type =
     Inr (map (\<lambda>(f, p). (f, stored p text)) (rules doc_type) @ [(''Document Type'', doc_type)])"
proof -
  have "''Document Type'' \<notin> set (keys (map (\<lambda>(f, p). (f, stored p text)) (rules doc_type)))"
    using doc_type_fresh_T1 doc_type_fresh_T2
    by (simp add: keys_def rules_def comp_def case_prod_unfold)
  from keys_dict_set_new [OF this] show ?thesis
    using extract_loop_rules [of doc_type "text"]
    by (simp add: extract_data_by_type_def rules_def)
qed

section \<open>Claims\<close>

text \<open>
  C1. For every page text, \<open>detect_document_type\<close> returns \<open>"type_2"\<close> (TypeB) if the
  text contains the literal marker "Document No.", otherwise \<open>"type_1"\<close> (TypeA) if it
  contains the literal marker "Store ID and Name", otherwise \<open>None\<close> (Unknown); a text
  that contains both markers resolves to \<open>"type_2"\<close>, the "Document No." test being the
  first one.
\<close>

theorem detect_document_type_markers:
  "detect_document_type text =
     (if sublist ''Document No.'' text then Some ''type_2''
      else if sublist ''Store ID and Name'' text then Some ''type_1''
      else None)
   \<and> (sublist ''Document No.'' text \<and> sublist ''Store ID and Name'' text
        \<longrightarrow> detect_document_type text = Some ''type_2'')"
  by (simp only: detect_document_type_def re_search_lit) simp

theorem detect_document_type_markers_witness:
  "sublist ''Document No.'' ''Store ID and Name Document No.''
   \<and> sublist ''Store ID and Name'' ''Store ID and Name Document No.''
   \<and> detect_document_type ''Store ID and Name Document No.'' = Some ''type_2''"
proof -
  have a: "sublist ''Document No.'' ''Store ID and Name Document No.''"
    by code_simp
  have b: "sublist ''Store ID and Name'' ''Store ID and Name Document No.''"
    by code_simp
  from detect_document_type_markers [of "''Store ID and Name Document No.''"] a b
  show ?thesis by blast
qed

lemma map_of_rules:
  "distinct (map fst ps) \<Longrightarrow> (f, p) \<in> set ps \<Longrightarrow>
   map_of (map (\<lambda>(f, p). (f, h p)) ps @ rest) f = Some (h p)"
proof (induction ps)
  case Nil
  then show ?case by simp
next
  case (Cons a ps)
  then show ?case by (cases a) (auto simp: image_iff)
qed

lemma distinct_rules: "distinct (map fst (rules doc_type))"
  using distinct_T1 distinct_T2 by (simp add: rules_def)

lemma stored_None: "re_search p t = None \<Longrightarrow> stored p t = None"
  by (simp add: stored_def)

lemma stored_Some: "re_search p t = Some (Match (Some g)) \<Longrightarrow> stored p t = Some (normalise g)"
  by (simp add: stored_def)

lemma map_of_snoc_fresh: "k \<notin> set (map fst xs) \<Longrightarrow> map_of (xs @ [(k, v)]) k = Some v"
  by (induction xs) auto

lemma dict_set_snoc: "k \<notin> set (map fst xs) \<Longrightarrow> dict_set (xs @ [(k, v)]) k w = xs @ [(k, w)]"
  by (induction xs) auto

text \<open>
  C2. For every page text and every rule of the selected table: when the rule's pattern
  finds no match, \<open>extract_data_by_type\<close> stores \<open>None\<close> under the field (the key is
  present and its value is \<open>None\<close>, which is not the empty string); the extraction is not
  aborted (a record is returned); and the value of every field is decided by the search
  of its own pattern alone (\<open>None\<close> on no match, the normalised group on a match),
  whatever the other rules do.
\<close>

theorem extract_field_not_found:
  assumes "(field, pattern) \<in> set (if doc_type = Some ''type_1'' then PATTERNS_TYPE_1 else PATTERNS_TYPE_2)"
  shows "\<exists>data. extract_data_by_type text doc_type = Inr data
           \<and> (re_search pattern text = None \<longrightarrow> map_of data field = Some None)
           \<and> (\<forall>g. re_search pattern text = Some (Match (Some g))
                  \<longrightarrow> map_of data field = Some (Some (normalise g)))"
proof -
  from assms have mem: "(field, pattern) \<in> set (rules doc_type)"
    by (simp add: rules_def)
  have look: "map_of (map (\<lambda>(f, p). (f, stored p text)) (rules doc_type)
                     @ [(''Document Type'', doc_type)]) field = Some (stored pattern text)"
    by (rule map_of_rules [OF distinct_rules mem])
  show ?thesis
    unfolding extract_data_by_type_eq
    using look by (auto simp: stored_None stored_Some)
qed


lemma keys_extract:
  "extract_data_by_type text doc_type = Inr data \<Longrightarrow>
   keys data = map fst (rules doc_type) @ [''Document Type'']"
  unfolding extract_data_by_type_eq
  by (auto simp: keys_def comp_def case_prod_unfold)

lemma source_file_fresh:
  "''Source File'' \<notin> set (map fst (rules doc_type) @ [''Document Type''])"
proof (cases "doc_type = Some ''type_1''")
  case True
  then have "rules doc_type = PATTERNS_TYPE_1" by (simp add: rules_def)
  then show ?thesis by (simp only: fields_T1) simp
next
  case False
  then have "rules doc_type = PATTERNS_TYPE_2" by (simp add: rules_def)
  then show ?thesis by (simp only: fields_T2) simp
qed

lemma keys_with_source:
  assumes "extract_data_by_type text doc_type = Inr data"
  shows "keys (dict_set data ''Source File'' v)
           = map fst (rules doc_type) @ [''Document Type'', ''Source File'']"
proof -
  have k: "keys data = map fst (rules doc_type) @ [''Document Type'']"
    by (rule keys_extract [OF assms])
  then have "''Source File'' \<notin> set (keys data)"
    using source_file_fresh [of doc_type] by simp
  from keys_dict_set_new [OF this] show ?thesis
    using k by (simp add: keys_def)
qed

lemma detect_cases:
  "detect_document_type t = None \<or> detect_document_type t = Some ''type_1''
     \<or> detect_document_type t = Some ''type_2''"
  by (simp add: detect_document_type_def)

lemma map_of_snoc_other: "k \<noteq> k' \<Longrightarrow> map_of (xs @ [(k', v)]) k = map_of xs k"
  by (induction xs) auto

lemma record_values:
  assumes "extract_data_by_type text doc_type = Inr data0"
  shows "map_of (dict_set data0 ''Source File'' v) ''Document Type'' = Some doc_type"
    and "map_of (dict_set data0 ''Source File'' v) ''Source File'' = Some v"
proof -
  let ?body = "map (\<lambda>(f, p). (f, stored p text)) (rules doc_type)"
  from assms have d0: "data0 = ?body @ [(''Document Type'', doc_type)]"
    by (simp add: extract_data_by_type_eq)
  have fst_body: "map fst ?body = map fst (rules doc_type)"
    by (simp add: comp_def case_prod_unfold)
  have kd: "keys data0 = map fst (rules doc_type) @ [''Document Type'']"
    by (rule keys_extract [OF assms])
  have sfk: "''Source File'' \<notin> set (keys data0)"
    unfolding kd by (rule source_file_fresh)
  then have sf: "''Source File'' \<notin> set (map fst data0)" by (simp add: keys_def)
  from keys_dict_set_new [OF sfk]
  have ds: "dict_set data0 ''Source File'' v = data0 @ [(''Source File'', v)]" .
  have dt: "''Document Type'' \<notin> set (map fst ?body)"
    unfolding fst_body using doc_type_fresh_T1 doc_type_fresh_T2 by (simp add: rules_def)
  show "map_of (dict_set data0 ''Source File'' v) ''Source File'' = Some v"
    unfolding ds using sf by (rule map_of_snoc_fresh)
  have "map_of (data0 @ [(''Source File'', v)]) ''Document Type'' = map_of data0 ''Document Type''"
    by (rule map_of_snoc_other) simp
  also have "\<dots> = Some doc_type"
    unfolding d0 using dt by (rule map_of_snoc_fresh)
  finally show "map_of (dict_set data0 ''Source File'' v) ''Document Type'' = Some doc_type"
    unfolding ds .
qed

lemma produced_mono:
  "produced z PdfDocument rest ty d \<Longrightarrow> produced z PdfDocument (pdf_name # rest) ty d"
  unfolding produced_def by auto

lemma process_loop_records:
  assumes "process_loop z PdfDocument files a1 a2 = Inr (b1, b2)"
  shows "set a1 \<subseteq> set b1 \<and> set a2 \<subseteq> set b2
       \<and> (\<forall>d \<in> set b1. d \<in> set a1 \<or> produced z PdfDocument files ''type_1'' d)
       \<and> (\<forall>d \<in> set b2. d \<in> set a2 \<or> produced z PdfDocument files ''type_2'' d)
       \<and> (\<forall>n \<in> set files. filed z PdfDocument n b1 b2)"
  using assms
proof (induction files arbitrary: a1 a2)
  case Nil
  then show ?case by simp
next
  case (Cons pdf_name rest)
  from Cons.prems obtain pdf_bytes where rd: "read z pdf_name = Inr pdf_bytes"
    by (cases "read z pdf_name") auto
  from Cons.prems rd obtain t
    where tx: "extract_text_from_first_page PdfDocument pdf_bytes = Inr t"
    by (cases "extract_text_from_first_page PdfDocument pdf_bytes") auto
  obtain data0 where ex: "extract_data_by_type t (detect_document_type t) = Inr data0"
    by (simp add: extract_data_by_type_eq)
  let ?d = "dict_set data0 ''Source File'' (Some pdf_name)"
  from detect_cases [of t] show ?case
  proof (elim disjE)
    assume n: "detect_document_type t = None"
    with Cons.prems rd tx have "process_loop z PdfDocument rest a1 a2 = Inr (b1, b2)"
      by simp
    from Cons.IH [OF this]
    have s: "set a1 \<subseteq> set b1" "set a2 \<subseteq> set b2"
      and p1: "\<forall>d \<in> set b1. d \<in> set a1 \<or> produced z PdfDocument rest ''type_1'' d"
      and p2: "\<forall>d \<in> set b2. d \<in> set a2 \<or> produced z PdfDocument rest ''type_2'' d"
      and f: "\<forall>n \<in> set rest. filed z PdfDocument n b1 b2"
      by blast+
    have "filed z PdfDocument pdf_name b1 b2"
      unfolding filed_def using rd tx ex n by simp
    with s p1 p2 f show ?thesis by (auto intro: produced_mono)
  next
    assume t1: "detect_document_type t = Some ''type_1''"
    with Cons.prems rd tx ex
    have "process_loop z PdfDocument rest (a1 @ [?d]) a2 = Inr (b1, b2)"
      by simp
    from Cons.IH [OF this]
    have s: "set (a1 @ [?d]) \<subseteq> set b1" "set a2 \<subseteq> set b2"
      and p1: "\<forall>d \<in> set b1. d \<in> set (a1 @ [?d]) \<or> produced z PdfDocument rest ''type_1'' d"
      and p2: "\<forall>d \<in> set b2. d \<in> set a2 \<or> produced z PdfDocument rest ''type_2'' d"
      and f: "\<forall>n \<in> set rest. filed z PdfDocument n b1 b2"
      by blast+
    have p: "produced z PdfDocument (pdf_name # rest) ''type_1'' ?d"
      unfolding produced_def using rd tx ex t1 by auto
    have "filed z PdfDocument pdf_name b1 b2"
      unfolding filed_def using rd tx ex t1 s by simp
    with s p1 p2 f p show ?thesis by (auto intro: produced_mono)
  next
    assume t2: "detect_document_type t = Some ''type_2''"
    with Cons.prems rd tx ex
    have "process_loop z PdfDocument rest a1 (a2 @ [?d]) = Inr (b1, b2)"
      by simp
    from Cons.IH [OF this]
    have s: "set a1 \<subseteq> set b1" "set (a2 @ [?d]) \<subseteq> set b2"
      and p1: "\<forall>d \<in> set b1. d \<in> set a1 \<or> produced z PdfDocument rest ''type_1'' d"
      and p2: "\<forall>d \<in> set b2. d \<in> set (a2 @ [?d]) \<or> produced z PdfDocument rest ''type_2'' d"
      and f: "\<forall>n \<in> set rest. filed z PdfDocument n b1 b2"
      by blast+
    have p: "produced z PdfDocument (pdf_name # rest) ''type_2'' ?d"
      unfolding produced_def using rd tx ex t2 by auto
    have "filed z PdfDocument pdf_name b1 b2"
      unfolding filed_def using rd tx ex t2 s by simp
    with s p1 p2 f p show ?thesis by (auto intro: produced_mono)
  qed
qed

lemma process_zip_file_loop:
  assumes "process_zip_file ZipFile PdfDocument uploaded_zip_bytes = Inr r"
  shows "\<exists>z. ZipFile uploaded_zip_bytes = Inr z
           \<and> process_loop z PdfDocument
                (filter (\<lambda>f. endswith (lower f) ''.pdf'') (namelist z)) [] [] = Inr r"
  using assms
  by (cases "ZipFile uploaded_zip_bytes") (simp_all add: process_zip_file_def)

text \<open>
  C3. Whenever \<open>process_zip_file\<close> returns its two lists, every record of the first list
  was built from an entry of the archive whose name ends in \<open>.pdf\<close> and whose page text
  \<open>detect_document_type\<close> resolves to \<open>"type_1"\<close>: it is the result of
  \<open>extract_data_by_type\<close> on that text with that type, with \<open>Source File\<close> set to the
  entry's name; its keys are exactly the 12 field names of \<open>PATTERNS_TYPE_1\<close>, in the
  table's order, followed by \<open>Document Type\<close> and \<open>Source File\<close>, with no key missing,
  added or repeated; its \<open>Document Type\<close> is \<open>"type_1"\<close> and its \<open>Source File\<close> is the
  entry's name. The same holds for the second list with \<open>"type_2"\<close> and the 11 field names
  of \<open>PATTERNS_TYPE_2\<close>. Conversely every \<open>.pdf\<close> entry was read, and if its text resolves
  to a type, its record is in the list of that type. This holds for every archive and
  every page text.
\<close>

theorem record_field_set:
  assumes "process_zip_file ZipFile PdfDocument uploaded_zip_bytes
             = Inr (all_data_type_1, all_data_type_2)"
  shows "\<exists>z. ZipFile uploaded_zip_bytes = Inr z
     \<and> (\<forall>data \<in> set all_data_type_1.
          \<exists>pdf_name pdf_bytes text data0.
             pdf_name \<in> set (namelist z) \<and> endswith (lower pdf_name) ''.pdf''
           \<and> read z pdf_name = Inr pdf_bytes
           \<and> extract_text_from_first_page PdfDocument pdf_bytes = Inr text
           \<and> detect_document_type text = Some ''type_1''
           \<and> extract_data_by_type text (Some ''type_1'') = Inr data0
           \<and> data = dict_set data0 ''Source File'' (Some pdf_name)
           \<and> keys data =
               [''Inspection'', ''Store ID and Name'', ''Tracker'', ''Inspector'',
                ''Project Team PIC'', ''Project Team Present'', ''Contractor PIC'',
                ''Contractor Present'', ''Issue Date'', ''Inspection Date'', ''Report Date'',
                ''Handover Date'', ''Document Type'', ''Source File'']
           \<and> distinct (keys data) \<and> length (keys data) = 12 + 2
           \<and> map_of data ''Document Type'' = Some (Some ''type_1'')
           \<and> map_of data ''Source File'' = Some (Some pdf_name))
     \<and> (\<forall>data \<in> set all_data_type_2.
          \<exists>pdf_name pdf_bytes text data0.
             pdf_name \<in> set (namelist z) \<and> endswith (lower pdf_name) ''.pdf''
           \<and> read z pdf_name = Inr pdf_bytes
           \<and> extract_text_from_first_page PdfDocument pdf_bytes = Inr text
           \<and> detect_document_type text = Some ''type_2''
           \<and> extract_data_by_type text (Some ''type_2'') = Inr data0
           \<and> data = dict_set data0 ''Source File'' (Some pdf_name)
           \<and> keys data =
               [''Document No.'', ''Audit Title'', ''Site Name'', ''Location'',
                ''Contractor Present'', ''Contractor Name'', ''Project PIC Present'',
                ''Project PIC Name'', ''Inspected by'', ''Inspection Date'', ''Prepared by'',
                ''Document Type'', ''Source File'']
           \<and> distinct (keys data) \<and> length (keys data) = 11 + 2
           \<and> map_of data ''Document Type'' = Some (Some ''type_2'')
           \<and> map_of data ''Source File'' = Some (Some pdf_name))
     \<and> (\<forall>pdf_name \<in> set (namelist z). endswith (lower pdf_name) ''.pdf'' \<longrightarrow>
          (\<exists>pdf_bytes text data0.
             read z pdf_name = Inr pdf_bytes
           \<and> extract_text_from_first_page PdfDocument pdf_bytes = Inr text
           \<and> extract_data_by_type text (detect_document_type text) = Inr data0
           \<and> (detect_document_type text = Some ''type_1''
                \<longrightarrow> dict_set data0 ''Source File'' (Some pdf_name) \<in> set all_data_type_1)
           \<and> (detect_document_type text = Some ''type_2''
                \<longrightarrow> dict_set data0 ''Source File'' (Some pdf_name) \<in> set all_data_type_2)))"
proof -
  let ?files = "\<lambda>z. filter (\<lambda>f. endswith (lower f) ''.pdf'') (namelist z)"
  from process_zip_file_loop [OF assms] obtain z
    where z: "ZipFile uploaded_zip_bytes = Inr z"
      and loop: "process_loop z PdfDocument (?files z) [] []
                   = Inr (all_data_type_1, all_data_type_2)"
    by blast
  from process_loop_records [OF loop]
  have p1: "\<forall>d \<in> set all_data_type_1. produced z PdfDocument (?files z) ''type_1'' d"
    and p2: "\<forall>d \<in> set all_data_type_2. produced z PdfDocument (?files z) ''type_2'' d"
    and f: "\<forall>n \<in> set (?files z). filed z PdfDocument n all_data_type_1 all_data_type_2"
    by simp_all
  have r1: "rules (Some ''type_1'') = PATTERNS_TYPE_1" by (simp add: rules_def)
  have r2: "rules (Some ''type_2'') = PATTERNS_TYPE_2" by (simp add: rules_def)
  have A: "\<exists>pdf_name pdf_bytes text data0.
             pdf_name \<in> set (namelist z) \<and> endswith (lower pdf_name) ''.pdf''
           \<and> read z pdf_name = Inr pdf_bytes
           \<and> extract_text_from_first_page PdfDocument pdf_bytes = Inr text
           \<and> detect_document_type text = Some ''type_1''
           \<and> extract_data_by_type text (Some ''type_1'') = Inr data0
           \<and> data = dict_set data0 ''Source File'' (Some pdf_name)
           \<and> keys data =
               [''Inspection'', ''Store ID and Name'', ''Tracker'', ''Inspector'',
                ''Project Team PIC'', ''Project Team Present'', ''Contractor PIC'',
                ''Contractor Present'', ''Issue Date'', ''Inspection Date'', ''Report Date'',
                ''Handover Date'', ''Document Type'', ''Source File'']
           \<and> distinct (keys data) \<and> length (keys data) = 12 + 2
           \<and> map_of data ''Document Type'' = Some (Some ''type_1'')
           \<and> map_of data ''Source File'' = Some (Some pdf_name)"
    if "data \<in> set all_data_type_1" for data
  proof -
    from that p1 have "produced z PdfDocument (?files z) ''type_1'' data" by blast
    then obtain pdf_name pdf_bytes t data0
      where m: "pdf_name \<in> set (?files z)"
        and rd: "read z pdf_name = Inr pdf_bytes"
        and tx: "extract_text_from_first_page PdfDocument pdf_bytes = Inr t"
        and dt: "detect_document_type t = Some ''type_1''"
        and ex: "extract_data_by_type t (Some ''type_1'') = Inr data0"
        and d: "data = dict_set data0 ''Source File'' (Some pdf_name)"
      unfolding produced_def by blast
    from m have m': "pdf_name \<in> set (namelist z)" "endswith (lower pdf_name) ''.pdf''"
      by simp_all
    have k: "keys data =
               [''Inspection'', ''Store ID and Name'', ''Tracker'', ''Inspector'',
                ''Project Team PIC'', ''Project Team Present'', ''Contractor PIC'',
                ''Contractor Present'', ''Issue Date'', ''Inspection Date'', ''Report Date'',
                ''Handover Date'', ''Document Type'', ''Source File'']"
      unfolding d keys_with_source [OF ex] r1 fields_T1 by simp
    have k2: "distinct (keys data)" "length (keys data) = 12 + 2"
      unfolding k by simp_all
    note v = record_values [OF ex, of "Some pdf_name", folded d]
    from m' rd tx dt ex d k k2 v show ?thesis by blast
  qed
  have B: "\<exists>pdf_name pdf_bytes text data0.
             pdf_name \<in> set (namelist z) \<and> endswith (lower pdf_name) ''.pdf''
           \<and> read z pdf_name = Inr pdf_bytes
           \<and> extract_text_from_first_page PdfDocument pdf_bytes = Inr text
           \<and> detect_document_type text = Some ''type_2''
           \<and> extract_data_by_type text (Some ''type_2'') = Inr data0
           \<and> data = dict_set data0 ''Source File'' (Some pdf_name)
           \<and> keys data =
               [''Document No.'', ''Audit Title'', ''Site Name'', ''Location'',
                ''Contractor Present'', ''Contractor Name'', ''Project PIC Present'',
                ''Project PIC Name'', ''Inspected by'', ''Inspection Date'', ''Prepared by'',
                ''Document Type'', ''Source File'']
           \<and> distinct (keys data) \<and> length (keys data) = 11 + 2
           \<and> map_of data ''Document Type'' = Some (Some ''type_2'')
           \<and> map_of data ''Source File'' = Some (Some pdf_name)"
    if "data \<in> set all_data_type_2" for data
  proof -
    from that p2 have "produced z PdfDocument (?files z) ''type_2'' data" by blast
    then obtain pdf_name pdf_bytes t data0
      where m: "pdf_name \<in> set (?files z)"
        and rd: "read z pdf_name = Inr pdf_bytes"
        and tx: "extract_text_from_first_page PdfDocument pdf_bytes = Inr t"
        and dt: "detect_document_type t = Some ''type_2''"
        and ex: "extract_data_by_type t (Some ''type_2'') = Inr data0"
        and d: "data = dict_set data0 ''Source File'' (Some pdf_name)"
      unfolding produced_def by blast
    from m have m': "pdf_name \<in> set (namelist z)" "endswith (lower pdf_name) ''.pdf''"
      by simp_all
    have k: "keys data =
               [''Document No.'', ''Audit Title'', ''Site Name'', ''Location'',
                ''Contractor Present'', ''Contractor Name'', ''Project PIC Present'',
                ''Project PIC Name'', ''Inspected by'', ''Inspection Date'', ''Prepared by'',
                ''Document Type'', ''Source File'']"
      unfolding d keys_with_source [OF ex] r2 fields_T2 by simp
    have k2: "distinct (keys data)" "length (keys data) = 11 + 2"
      unfolding k by simp_all
    note v = record_values [OF ex, of "Some pdf_name", folded d]
    from m' rd tx dt ex d k k2 v show ?thesis by blast
  qed
  have C: "\<forall>pdf_name \<in> set (namelist z). endswith (lower pdf_name) ''.pdf'' \<longrightarrow>
          (\<exists>pdf_bytes text data0.
             read z pdf_name = Inr pdf_bytes
           \<and> extract_text_from_first_page PdfDocument pdf_bytes = Inr text
           \<and> extract_data_by_type text (detect_document_type text) = Inr data0
           \<and> (detect_document_type text = Some ''type_1''
                \<longrightarrow> dict_set data0 ''Source File'' (Some pdf_name) \<in> set all_data_type_1)
           \<and> (detect_document_type text = Some ''type_2''
                \<longrightarrow> dict_set data0 ''Source File'' (Some pdf_name) \<in> set all_data_type_2))"
    using f unfolding filed_def by simp
  from z A B C show ?thesis by blast
qed


theorem extract_field_not_found_witness:
  "(''Inspector'', single_line ''Inspector'') \<in> set PATTERNS_TYPE_1
   \<and> re_search (single_line ''Inspector'') ''Tracker'' = None
   \<and> (\<exists>data. extract_data_by_type ''Tracker'' (Some ''type_1'') = Inr data
          \<and> map_of data ''Inspector'' = Some None)
   \<and> re_search (single_line ''Inspector'') ''Inspector x'' = Some (Match (Some ''x''))
   \<and> (\<exists>data. extract_data_by_type ''Inspector x'' (Some ''type_1'') = Inr data
          \<and> map_of data ''Inspector'' = Some (Some (normalise ''x'')))"
proof -
  have m: "(''Inspector'', single_line ''Inspector'')
             \<in> set (if Some ''type_1'' = Some ''type_1'' then PATTERNS_TYPE_1 else PATTERNS_TYPE_2)"
    by (simp add: PATTERNS_TYPE_1_def)
  have n: "re_search (single_line ''Inspector'') ''Tracker'' = None"
    by code_simp
  have y: "re_search (single_line ''Inspector'') ''Inspector x'' = Some (Match (Some ''x''))"
    by code_simp
  from extract_field_not_found [OF m, of "''Tracker''"] n
       extract_field_not_found [OF m, of "''Inspector x''"] y m
  show ?thesis by auto
qed

theorem record_field_set_witness:
  "\<exists>d1 d2.
     process_zip_file
       (\<lambda>u. Inr \<lparr>namelist = [''a.pdf'', ''b.PDF'', ''c.txt''], read = (\<lambda>n. Inr n)\<rparr>)
       (\<lambda>b. Inr [Inr (if b = ''a.pdf'' then ''Store ID and Name'' else ''Document No.'')])
       () = Inr ([d1], [d2])
     \<and> keys d1 =
         [''Inspection'', ''Store ID and Name'', ''Tracker'', ''Inspector'',
          ''Project Team PIC'', ''Project Team Present'', ''Contractor PIC'',
          ''Contractor Present'', ''Issue Date'', ''Inspection Date'', ''Report Date'',
          ''Handover Date'', ''Document Type'', ''Source File'']
     \<and> map_of d1 ''Document Type'' = Some (Some ''type_1'')
     \<and> keys d2 =
         [''Document No.'', ''Audit Title'', ''Site Name'', ''Location'',
          ''Contractor Present'', ''Contractor Name'', ''Project PIC Present'',
          ''Project PIC Name'', ''Inspected by'', ''Inspection Date'', ''Prepared by'',
          ''Document Type'', ''Source File'']
     \<and> map_of d2 ''Document Type'' = Some (Some ''type_2'')"
proof -
  let ?Z = "\<lambda>u::unit. Inr \<lparr>namelist = [''a.pdf'', ''b.PDF'', ''c.txt''],
                            read = (\<lambda>n. Inr n :: py_error + string)\<rparr> :: py_error + string zipfile"
  let ?P = "\<lambda>b. Inr [Inr (if b = ''a.pdf'' then ''Store ID and Name'' else ''Document No.'')]
              :: py_error + pdf"
  have f: "filter (\<lambda>f. endswith (lower f) ''.pdf'') [''a.pdf'', ''b.PDF'', ''c.txt'']
             = [''a.pdf'', ''b.PDF'']"
    by code_simp
  have d1: "detect_document_type ''Store ID and Name'' = Some ''type_1''"
    by code_simp
  have d2: "detect_document_type ''Document No.'' = Some ''type_2''"
    by code_simp
  have "process_zip_file ?Z ?P () = process_loop
          \<lparr>namelist = [''a.pdf'', ''b.PDF'', ''c.txt''], read = (\<lambda>n. Inr n)\<rparr> ?P
          [''a.pdf'', ''b.PDF''] [] []"
    by (simp only: process_zip_file_def Let_def sum.case zipfile.select_convs f)
  then have "\<exists>d1 d2. process_zip_file ?Z ?P () = Inr ([d1], [d2])"
    by (simp add: d1 d2 extract_text_from_first_page_def extract_data_by_type_eq Let_def)
  then obtain x1 x2 where r: "process_zip_file ?Z ?P () = Inr ([x1], [x2])"
    by blast
  from record_field_set [OF r] have
    "keys x1 =
         [''Inspection'', ''Store ID and Name'', ''Tracker'', ''Inspector'',
          ''Project Team PIC'', ''Project Team Present'', ''Contractor PIC'',
          ''Contractor Present'', ''Issue Date'', ''Inspection Date'', ''Report Date'',
          ''Handover Date'', ''Document Type'', ''Source File'']
     \<and> map_of x1 ''Document Type'' = Some (Some ''type_1'')
     \<and> keys x2 =
         [''Document No.'', ''Audit Title'', ''Site Name'', ''Location'',
          ''Contractor Present'', ''Contractor Name'', ''Project PIC Present'',
          ''Project PIC Name'', ''Inspected by'', ''Inspection Date'', ''Prepared by'',
          ''Document Type'', ''Source File'']
     \<and> map_of x2 ''Document Type'' = Some (Some ''type_2'')"
    by (simp only: list.set ball_simps) blast
  with r show ?thesis by blast
qed

text \<open>
  C9. For every page text and every \<open>doc_type\<close> other than \<open>"type_1"\<close>, \<open>None\<close>
  included, \<open>extract_data_by_type\<close> does not reject the input: it uses
  \<open>PATTERNS_TYPE_2\<close> and returns a record with the \<open>type_2\<close> keys whose
  \<open>Document Type\<close> is the given \<open>doc_type\<close>; the record is the one for \<open>"type_2"\<close> with
  only \<open>Document Type\<close> replaced.
\<close>

theorem extract_unknown_type:
  assumes "doc_type \<noteq> Some ''type_1''"
  shows "\<exists>data. extract_data_by_type text doc_type = Inr data
           \<and> keys data =
               [''Document No.'', ''Audit Title'', ''Site Name'', ''Location'',
                ''Contractor Present'', ''Contractor Name'', ''Project PIC Present'',
                ''Project PIC Name'', ''Inspected by'', ''Inspection Date'', ''Prepared by'',
                ''Document Type'']
           \<and> map_of data ''Document Type'' = Some doc_type
           \<and> (\<exists>data2. extract_data_by_type text (Some ''type_2'') = Inr data2
                  \<and> data = dict_set data2 ''Document Type'' doc_type)"
proof -
  have r: "rules doc_type = PATTERNS_TYPE_2" "rules (Some ''type_2'') = PATTERNS_TYPE_2"
    using assms by (simp_all add: rules_def)
  let ?body = "map (\<lambda>(f, p). (f, stored p text)) PATTERNS_TYPE_2"
  have fst_body: "map fst ?body = map fst PATTERNS_TYPE_2"
    by (simp add: comp_def case_prod_unfold)
  have fresh: "''Document Type'' \<notin> set (map fst ?body)"
    unfolding fst_body by (rule doc_type_fresh_T2)
  then have look: "map_of (?body @ [(''Document Type'', doc_type)]) ''Document Type'' = Some doc_type"
    by (rule map_of_snoc_fresh)
  have upd: "dict_set (?body @ [(''Document Type'', Some ''type_2'')]) ''Document Type'' doc_type
               = ?body @ [(''Document Type'', doc_type)]"
    using fresh by (rule dict_set_snoc)
  show ?thesis
    unfolding extract_data_by_type_eq r
    using look upd fst_body by (simp add: keys_def fields_T2)
qed

theorem extract_unknown_type_witness:
  "None \<noteq> Some ''type_1''
   \<and> (\<exists>data. extract_data_by_type ''Inspector x'' None = Inr data
          \<and> keys data =
              [''Document No.'', ''Audit Title'', ''Site Name'', ''Location'',
               ''Contractor Present'', ''Contractor Name'', ''Project PIC Present'',
               ''Project PIC Name'', ''Inspected by'', ''Inspection Date'', ''Prepared by'',
               ''Document Type'']
          \<and> map_of data ''Document Type'' = Some None)"
proof -
  have h: "None \<noteq> Some ''type_1''" by simp
  from extract_unknown_type [OF h, of "''Inspector x''"] h
  show ?thesis by blast
qed

text \<open>
  C4. On the page text
  \<open>"Jane Doe\nStore ID and Name\n001 - Main St\nTracker\nINS-2024\nInspector\nJohn Smith"\<close>,
  \<open>detect_document_type\<close> returns \<open>"type_1"\<close>, and \<open>extract_data_by_type\<close> for \<open>"type_1"\<close>
  returns the record with \<open>Inspection\<close> = "Jane Doe" (the line before the
  "Store ID and Name" marker), \<open>Store ID and Name\<close> = "001 - Main St", \<open>Tracker\<close> =
  "INS-2024", \<open>Inspector\<close> = "John Smith", and \<open>None\<close> under each of the other eight
  fields of \<open>PATTERNS_TYPE_1\<close>.
\<close>

theorem scenario_type_1:
  "detect_document_type
     ''Jane Doe\<newline>Store ID and Name\<newline>001 - Main St\<newline>Tracker\<newline>INS-2024\<newline>Inspector\<newline>John Smith''
     = Some ''type_1''
   \<and> extract_data_by_type
       ''Jane Doe\<newline>Store ID and Name\<newline>001 - Main St\<newline>Tracker\<newline>INS-2024\<newline>Inspector\<newline>John Smith''
       (Some ''type_1'')
     = Inr [(''Inspection'', Some ''Jane Doe''),
            (''Store ID and Name'', Some ''001 - Main St''),
            (''Tracker'', Some ''INS-2024''),
            (''Inspector'', Some ''John Smith''),
            (''Project Team PIC'', None),
            (''Project Team Present'', None),
            (''Contractor PIC'', None),
            (''Contractor Present'', None),
            (''Issue Date'', None),
            (''Inspection Date'', None),
            (''Report Date'', None),
            (''Handover Date'', None),
            (''Document Type'', Some ''type_1'')]"
  by code_simp

text \<open>
  C10. A field can be stored as the empty string, which is not \<open>None\<close>: on the page text
  \<open>"Inspector  "\<close> (the label and two spaces, at the end of the text) the pattern of
  \<open>Inspector\<close> matches with group 1 equal to one space, and after \<open>strip\<close> and the
  \<open>split\<close>/\<open>join\<close> step \<open>extract_data_by_type\<close> stores \<open>""\<close> under \<open>Inspector\<close>, while
  the fields whose pattern does not match hold \<open>None\<close>.
\<close>

theorem present_empty_string:
  "re_search (single_line ''Inspector'') ''Inspector  '' = Some (Match (Some '' ''))
   \<and> normalise '' '' = ''''
   \<and> extract_data_by_type ''Inspector  '' (Some ''type_1'')
     = Inr [(''Inspection'', None),
            (''Store ID and Name'', None),
            (''Tracker'', None),
            (''Inspector'', Some ''''),
            (''Project Team PIC'', None),
            (''Project Team Present'', None),
            (''Contractor PIC'', None),
            (''Contractor Present'', None),
            (''Issue Date'', None),
            (''Inspection Date'', None),
            (''Report Date'', None),
            (''Handover Date'', None),
            (''Document Type'', Some ''type_1'')]
   \<and> Some '''' \<noteq> (None :: string option)"
  by code_simp

section \<open>Whitespace normalisation\<close>

lemma split_Nil:
  assumes "dropWhile is_space s = []"
  shows "split s = []"
  by (subst split.simps) (simp only: assms list.case)

lemma split_Cons:
  assumes "dropWhile is_space s = x # w"
  shows "split s = (x # takeWhile (\<lambda>c. \<not> is_space c) w)
                     # split (dropWhile (\<lambda>c. \<not> is_space c) w)"
  by (subst split.simps) (simp only: assms list.case)

lemma dropWhile_Cons_hd: "dropWhile P s = x # w \<Longrightarrow> \<not> P x"
  using hd_dropWhile [of P s] by simp

lemma tokens_ok_Nil: "tokens_ok []"
  by (simp add: tokens_ok_def)

lemma tokens_ok_Cons:
  "tokens_ok (t # ts) \<longleftrightarrow> t \<noteq> [] \<and> (\<forall>c \<in> set t. \<not> is_space c) \<and> tokens_ok ts"
  by (simp add: tokens_ok_def)

lemma takeWhile_all: "\<forall>c \<in> set (takeWhile P w). P c"
  by (auto dest: set_takeWhileD)

lemma split_tokens: "tokens_ok (split s)"
proof (induction s rule: split.induct)
  case (1 s)
  show ?case
  proof (cases "dropWhile is_space s")
    case Nil
    show ?thesis unfolding split_Nil [OF Nil] by (rule tokens_ok_Nil)
  next
    case (Cons x w)
    have x: "\<not> is_space x" by (rule dropWhile_Cons_hd [OF Cons])
    have tw: "\<forall>c \<in> set (takeWhile (\<lambda>c. \<not> is_space c) w). \<not> is_space c"
      by (rule takeWhile_all)
    have ih: "tokens_ok (split (dropWhile (\<lambda>c. \<not> is_space c) w))"
      by (rule "1.IH" [OF Cons])
    show ?thesis
      unfolding split_Cons [OF Cons] tokens_ok_Cons using x tw ih by simp
  qed
qed

lemma split_dropWhile: "split (dropWhile is_space s) = split s"
proof (cases "dropWhile is_space s")
  case Nil
  have "split [] = []" by (rule split_Nil) simp
  then show ?thesis unfolding Nil split_Nil [OF Nil] .
next
  case (Cons x w)
  have "\<not> is_space x" by (rule dropWhile_Cons_hd [OF Cons])
  then have "dropWhile is_space (x # w) = x # w" by simp
  from split_Cons [OF this] show ?thesis unfolding Cons split_Cons [OF Cons] .
qed

lemma split_space_Cons:
  assumes "is_space c"
  shows "split (c # s) = split s"
proof -
  have "split (c # s) = split (dropWhile is_space (c # s))"
    by (rule split_dropWhile [symmetric])
  also have "dropWhile is_space (c # s) = dropWhile is_space s"
    using assms by simp
  also have "split (dropWhile is_space s) = split s"
    by (rule split_dropWhile)
  finally show ?thesis .
qed

lemma span_token:
  assumes "\<forall>c \<in> set w. \<not> is_space c" "r = [] \<or> is_space (hd r)"
  shows "takeWhile (\<lambda>c. \<not> is_space c) (w @ r) = w"
    and "dropWhile (\<lambda>c. \<not> is_space c) (w @ r) = r"
proof -
  have a: "takeWhile (\<lambda>c. \<not> is_space c) r = []"
    using assms(2) by (cases r) simp_all
  have b: "dropWhile (\<lambda>c. \<not> is_space c) r = r"
    using assms(2) by (cases r) simp_all
  show "takeWhile (\<lambda>c. \<not> is_space c) (w @ r) = w"
    using assms(1) a by (induction w) simp_all
  show "dropWhile (\<lambda>c. \<not> is_space c) (w @ r) = r"
    using assms(1) b by (induction w) simp_all
qed

lemma split_token_append:
  assumes "t \<noteq> []" "\<forall>c \<in> set t. \<not> is_space c" "r = [] \<or> is_space (hd r)"
  shows "split (t @ r) = t # split r"
proof -
  from assms(1) obtain x w where t: "t = x # w" by (cases t) auto
  from assms(2) have x: "\<not> is_space x" and w: "\<forall>c \<in> set w. \<not> is_space c"
    unfolding t by simp_all
  have d: "dropWhile is_space (t @ r) = x # (w @ r)" unfolding t using x by simp
  have "split (t @ r) = (x # takeWhile (\<lambda>c. \<not> is_space c) (w @ r))
                          # split (dropWhile (\<lambda>c. \<not> is_space c) (w @ r))"
    by (rule split_Cons [OF d])
  also have "\<dots> = t # split r"
    by (simp only: span_token [OF w assms(3)] t)
  finally show ?thesis .
qed

lemma space_is_space: "is_space CHR '' ''"
  by (simp add: is_space_def)

lemma split_empty: "split [] = []"
  by (rule split_Nil) simp

lemma join_Cons_Cons: "ts \<noteq> [] \<Longrightarrow> join sep (x # ts) = x @ sep @ join sep ts"
  by (cases ts) simp_all

lemma split_join: "tokens_ok ts \<Longrightarrow> split (join '' '' ts) = ts"
proof (induction ts)
  case Nil
  show ?case by (simp only: join.simps split_empty)
next
  case (Cons x ts)
  from Cons.prems have x: "x \<noteq> []" "\<forall>c \<in> set x. \<not> is_space c" and ok: "tokens_ok ts"
    unfolding tokens_ok_Cons by simp_all
  note IH = Cons.IH [OF ok]
  show ?case
  proof (cases "ts = []")
    case True
    have "split (x @ []) = x # split []"
      by (rule split_token_append [OF x]) simp
    then show ?thesis unfolding True by (simp add: split_empty)
  next
    case False
    have sp: "'' '' @ join '' '' ts = [] \<or> is_space (hd ('' '' @ join '' '' ts))"
      using space_is_space by simp
    have "split (join '' '' (x # ts)) = split (x @ ('' '' @ join '' '' ts))"
      by (simp only: join_Cons_Cons [OF False])
    also have "\<dots> = x # split ('' '' @ join '' '' ts)"
      by (rule split_token_append [OF x sp])
    also have "'' '' @ join '' '' ts = CHR '' '' # join '' '' ts"
      by simp
    also have "split (CHR '' '' # join '' '' ts) = split (join '' '' ts)"
      by (rule split_space_Cons [OF space_is_space])
    also have "\<dots> = ts" by (rule IH)
    finally show ?thesis .
  qed
qed

lemma join_nonempty: "tokens_ok ts \<Longrightarrow> ts \<noteq> [] \<Longrightarrow> join '' '' ts \<noteq> []"
proof (cases ts)
  case Nil
  assume "ts \<noteq> []"
  with Nil show ?thesis by simp
next
  case (Cons y ys)
  assume "tokens_ok ts"
  then have "y \<noteq> []" unfolding Cons tokens_ok_Cons by simp
  then show ?thesis unfolding Cons by (cases ys) simp_all
qed

lemma join_ends:
  "tokens_ok ts \<Longrightarrow> ts \<noteq> [] \<Longrightarrow>
   \<not> is_space (hd (join '' '' ts)) \<and> \<not> is_space (last (join '' '' ts))"
proof (induction ts)
  case Nil
  then show ?case by simp
next
  case (Cons x ts)
  from Cons.prems(1) have x: "x \<noteq> []" "\<forall>c \<in> set x. \<not> is_space c" and ok: "tokens_ok ts"
    unfolding tokens_ok_Cons by simp_all
  from x(1) have "hd x \<in> set x" "last x \<in> set x" by simp_all
  with x(2) have hx: "\<not> is_space (hd x)" and lx: "\<not> is_space (last x)" by blast+
  show ?case
  proof (cases "ts = []")
    case True
    show ?thesis unfolding True using hx lx by simp
  next
    case False
    let ?J = "join '' '' ts"
    have ne: "?J \<noteq> []" by (rule join_nonempty [OF ok False])
    from Cons.IH [OF ok False] have lj: "\<not> is_space (last ?J)" by simp
    have h: "hd (x @ '' '' @ ?J) = hd x" using x(1) by simp
    have l: "last (x @ '' '' @ ?J) = last ?J" using ne by simp
    show ?thesis
      unfolding join_Cons_Cons [OF False] h l using hx lj by simp
  qed
qed

lemma dropWhile_hd_id: "xs \<noteq> [] \<Longrightarrow> \<not> P (hd xs) \<Longrightarrow> dropWhile P xs = xs"
  by (cases xs) simp_all

lemma strip_empty: "strip [] = []"
  by (simp add: strip_def)

lemma strip_id:
  assumes "s \<noteq> []" "\<not> is_space (hd s)" "\<not> is_space (last s)"
  shows "strip s = s"
proof -
  have 1: "dropWhile is_space s = s" using assms(1,2) by (rule dropWhile_hd_id [of s is_space])
  have r: "rev s \<noteq> []" using assms(1) by simp
  have "hd (rev s) = last s" by (rule hd_rev)
  with assms(3) have "\<not> is_space (hd (rev s))" by simp
  with r have 2: "dropWhile is_space (rev s) = rev s"
    by (rule dropWhile_hd_id [of "rev s" is_space])
  show ?thesis unfolding strip_def 1 2 by simp
qed

lemma normalise_split: "normalise g = join '' '' (split (strip g))"
  by (simp add: normalise_def)

lemma strip_join: "tokens_ok ts \<Longrightarrow> strip (join '' '' ts) = join '' '' ts"
proof (cases "ts = []")
  case True
  then show ?thesis by (simp add: strip_empty)
next
  case False
  assume ok: "tokens_ok ts"
  from join_ends [OF ok False] join_nonempty [OF ok False]
  show ?thesis by (intro strip_id) simp_all
qed

lemma normalise_join: "tokens_ok ts \<Longrightarrow> normalise (join '' '' ts) = join '' '' ts"
  unfolding normalise_split by (simp only: strip_join split_join)

lemma normalise_idem: "normalise (normalise g) = normalise g"
proof -
  have ok: "tokens_ok (split (strip g))" by (rule split_tokens)
  show ?thesis
    unfolding normalise_split [of g] by (rule normalise_join [OF ok])
qed

text \<open>
  C8. The normalisation of a captured text (\<open>strip\<close>, then \<open>split\<close> and
  \<open>" ".join\<close>) is idempotent, and its result is a list of words, each not empty and free
  of whitespace, joined by single spaces; it has no whitespace at either end. Every
  value that \<open>extract_data_by_type\<close> stores under a rule field is the normalisation of
  group 1 of the field's pattern, and normalising it again leaves it unchanged.
\<close>

theorem normalise_idempotent:
  "normalise (normalise g) = normalise g
   \<and> (\<exists>ts. (\<forall>t \<in> set ts. t \<noteq> [] \<and> (\<forall>c \<in> set t. \<not> is_space c))
            \<and> normalise g = join '' '' ts)
   \<and> strip (normalise g) = normalise g
   \<and> (normalise g \<noteq> []
        \<longrightarrow> \<not> is_space (hd (normalise g)) \<and> \<not> is_space (last (normalise g)))
   \<and> (\<forall>data field v.
          extract_data_by_type text doc_type = Inr data
          \<and> (field, Some v) \<in> set data \<and> field \<noteq> ''Document Type''
        \<longrightarrow> (\<exists>pattern c.
               (field, pattern)
                 \<in> set (if doc_type = Some ''type_1'' then PATTERNS_TYPE_1 else PATTERNS_TYPE_2)
               \<and> re_search pattern text = Some (Match (Some c))
               \<and> v = normalise c)
            \<and> normalise v = v)"
proof -
  have ok: "tokens_ok (split (strip g))" by (rule split_tokens)
  have 1: "normalise (normalise g) = normalise g" by (rule normalise_idem)
  have 2: "\<exists>ts. (\<forall>t \<in> set ts. t \<noteq> [] \<and> (\<forall>c \<in> set t. \<not> is_space c))
            \<and> normalise g = join '' '' ts"
    using ok normalise_split [of g] unfolding tokens_ok_def by blast
  have 3: "strip (normalise g) = normalise g"
    unfolding normalise_split by (rule strip_join [OF ok])
  have 4: "normalise g \<noteq> []
        \<longrightarrow> \<not> is_space (hd (normalise g)) \<and> \<not> is_space (last (normalise g))"
  proof
    assume ne: "normalise g \<noteq> []"
    then have "split (strip g) \<noteq> []" unfolding normalise_split by auto
    from join_ends [OF ok this]
    show "\<not> is_space (hd (normalise g)) \<and> \<not> is_space (last (normalise g))"
      unfolding normalise_split .
  qed
  have 5: "(\<exists>pattern c.
               (field, pattern)
                 \<in> set (if doc_type = Some ''type_1'' then PATTERNS_TYPE_1 else PATTERNS_TYPE_2)
               \<and> re_search pattern text = Some (Match (Some c))
               \<and> v = normalise c)
            \<and> normalise v = v"
    if e: "extract_data_by_type text doc_type = Inr data"
      and m: "(field, Some v) \<in> set data" and f: "field \<noteq> ''Document Type''"
    for data field v
  proof -
    from e have "data = map (\<lambda>(f, p). (f, stored p text)) (rules doc_type)
                          @ [(''Document Type'', doc_type)]"
      by (simp add: extract_data_by_type_eq)
    with m f obtain p where p: "(field, p) \<in> set (rules doc_type)"
      and s: "stored p text = Some v"
      by auto
    from s obtain mt c where r: "re_search p text = Some mt"
      and c: "group1 mt = Some c" and v: "v = normalise c"
      unfolding stored_def by (auto split: option.splits)
    from c have "mt = Match (Some c)" by (cases mt) simp
    with r have r': "re_search p text = Some (Match (Some c))" by simp
    from p have p': "(field, p)
        \<in> set (if doc_type = Some ''type_1'' then PATTERNS_TYPE_1 else PATTERNS_TYPE_2)"
      by (simp add: rules_def)
    have "normalise v = v" unfolding v by (rule normalise_idem)
    with p' r' v show ?thesis by blast
  qed
  from 1 2 3 4 5 show ?thesis by blast
qed

theorem normalise_idempotent_witness:
  "extract_data_by_type ''Store ID and Name\<newline>001 -\<newline>  Main St\<newline>Tracker'' (Some ''type_1'')
     = Inr [(''Inspection'', None),
            (''Store ID and Name'', Some ''001 - Main St''),
            (''Tracker'', None),
            (''Inspector'', None),
            (''Project Team PIC'', None),
            (''Project Team Present'', None),
            (''Contractor PIC'', None),
            (''Contractor Present'', None),
            (''Issue Date'', None),
            (''Inspection Date'', None),
            (''Report Date'', None),
            (''Handover Date'', None),
            (''Document Type'', Some ''type_1'')]
   \<and> ''Store ID and Name'' \<noteq> ''Document Type''
   \<and> normalise ''001 -\<newline>  Main St'' = ''001 - Main St''
   \<and> normalise ''001 - Main St'' = ''001 - Main St''"
proof -
  let ?T = "''Store ID and Name\<newline>001 -\<newline>  Main St\<newline>Tracker''"
  let ?D = "[(''Inspection'', None),
            (''Store ID and Name'', Some ''001 - Main St''),
            (''Tracker'', None),
            (''Inspector'', None),
            (''Project Team PIC'', None),
            (''Project Team Present'', None),
            (''Contractor PIC'', None),
            (''Contractor Present'', None),
            (''Issue Date'', None),
            (''Inspection Date'', None),
            (''Report Date'', None),
            (''Handover Date'', None),
            (''Document Type'', Some ''type_1'')]"
  have e: "extract_data_by_type ?T (Some ''type_1'') = Inr ?D"
    by code_simp
  have m: "(''Store ID and Name'', Some ''001 - Main St'') \<in> set ?D"
    by simp
  have f: "''Store ID and Name'' \<noteq> ''Document Type''"
    by simp
  have n: "normalise ''001 -\<newline>  Main St'' = ''001 - Main St''"
    by code_simp
  from normalise_idempotent [of "''001 -\<newline>  Main St''" ?T "Some ''type_1''"] e m f
  have "normalise ''001 - Main St'' = ''001 - Main St''"
    by blast
  with e f n show ?thesis by blast
qed

section \<open>Texts without labels\<close>

lemma plus_greedy_suffix: "t \<in> set (plus_greedy c s) \<Longrightarrow> suffix t s"
  by (induction s) (auto split: if_splits intro: suffix_ConsI)

lemma suffix_prefix_sublist: "suffix t s \<Longrightarrow> prefix m t \<Longrightarrow> sublist m s"
  by (auto simp: suffix_def prefix_def sublist_def)

lemma re_search_needs:
  assumes "\<And>t g. run r t g \<noteq> [] \<Longrightarrow> sublist m t"
  shows "re_search r s \<noteq> None \<Longrightarrow> sublist m s"
proof (induction s)
  case Nil
  then have "run r [] None \<noteq> []"
    by (subst (asm) re_search.simps) (auto split: list.splits)
  then show ?case by (rule assms)
next
  case (Cons x xs)
  show ?case
  proof (cases "run r (x # xs) None")
    case Nil
    with Cons.prems have "re_search r xs \<noteq> None"
      by (subst (asm) re_search.simps) simp
    then have "sublist m xs" by (rule Cons.IH)
    then show ?thesis by (simp add: sublist_Cons_right)
  next
    case (Cons p ps)
    then have "run r (x # xs) None \<noteq> []" by simp
    then show ?thesis by (rule assms)
  qed
qed

lemma run_lit_needs: "run (lit m @ r) t g \<noteq> [] \<Longrightarrow> sublist m t"
  by (auto simp: run_lit_append split: if_splits intro: prefix_imp_sublist)

lemma run_plus_lit: "run (Plus c # lit m) s g \<noteq> [] \<Longrightarrow> \<exists>t. suffix t s \<and> prefix m t"
  by (auto simp: run_lit dest: plus_greedy_suffix split: if_splits)

lemma run_ahead_needs:
  assumes "run [Group [Plus c], Ahead (Plus d # lit m)] s g \<noteq> []"
  shows "sublist m s"
proof -
  from assms obtain s' G where s': "s' \<in> set (plus_greedy c s)"
    and a: "run (Plus d # lit m) s' G \<noteq> []"
    by (auto split: list.splits)
  from run_plus_lit [OF a] obtain t where t: "suffix t s'" "prefix m t" by blast
  from plus_greedy_suffix [OF s'] t(1) have "suffix t s" by (rule suffix_order.trans [rotated])
  then show ?thesis using t(2) by (rule suffix_prefix_sublist)
qed

lemma re_search_lit_prefix:
  assumes "re_search (lit m @ r) s \<noteq> None"
  shows "sublist m s"
proof -
  have "\<And>t g. run (lit m @ r) t g \<noteq> [] \<Longrightarrow> sublist m t"
    by (rule run_lit_needs)
  from this assms show ?thesis by (rule re_search_needs)
qed

lemma re_search_ahead:
  assumes "re_search [Group [Plus c], Ahead (Plus d # lit m)] s \<noteq> None"
  shows "sublist m s"
proof -
  have "\<And>t g. run [Group [Plus c], Ahead (Plus d # lit m)] t g \<noteq> [] \<Longrightarrow> sublist m t"
    by (rule run_ahead_needs)
  from this assms show ?thesis by (rule re_search_needs)
qed

lemma single_line_None: "\<not> sublist l s \<Longrightarrow> re_search (single_line l) s = None"
  unfolding single_line_def using re_search_lit_prefix by blast

lemma bounded_capture_None: "\<not> sublist l s \<Longrightarrow> re_search (bounded_capture l n) s = None"
  unfolding bounded_capture_def using re_search_lit_prefix by blast

lemma compound_anchor_None: "\<not> sublist l s \<Longrightarrow> re_search (compound_anchor l) s = None"
  unfolding compound_anchor_def using re_search_lit_prefix by blast

lemma ahead_None:
  "\<not> sublist m s \<Longrightarrow> re_search [Group [Plus c], Ahead (Plus d # lit m)] s = None"
  using re_search_ahead by blast

lemma no_label_T1:
  assumes "\<forall>(field, pattern) \<in> set PATTERNS_TYPE_1. \<not> sublist field text"
  shows "\<forall>(field, pattern) \<in> set PATTERNS_TYPE_1. re_search pattern text = None"
  using assms unfolding PATTERNS_TYPE_1_def
  by (simp add: single_line_None bounded_capture_None ahead_None)

lemma no_label_T2:
  assumes "\<forall>(field, pattern) \<in> set PATTERNS_TYPE_2. \<not> sublist field text"
  shows "\<forall>(field, pattern) \<in> set PATTERNS_TYPE_2. re_search pattern text = None"
  using assms unfolding PATTERNS_TYPE_2_def
  by (simp add: single_line_None bounded_capture_None compound_anchor_None)

lemma no_label_stored:
  assumes "\<forall>(field, pattern) \<in> set (rules doc_type). \<not> sublist field text"
  shows "map (\<lambda>(f, p). (f, stored p text)) (rules doc_type)
           = map (\<lambda>(field, pattern). (field, None)) (rules doc_type)"
proof -
  have "\<forall>(f, p) \<in> set (rules doc_type). re_search p text = None"
  proof (cases "doc_type = Some ''type_1''")
    case True
    then have r: "rules doc_type = PATTERNS_TYPE_1" by (simp add: rules_def)
    from assms show ?thesis unfolding r by (rule no_label_T1)
  next
    case False
    then have r: "rules doc_type = PATTERNS_TYPE_2" by (simp add: rules_def)
    from assms show ?thesis unfolding r by (rule no_label_T2)
  qed
  then have "\<forall>(f, p) \<in> set (rules doc_type). stored p text = None"
    by (auto simp: stored_def)
  then show ?thesis by auto
qed

lemma field_names_nonempty: "\<forall>(field, pattern) \<in> set (rules doc_type). field \<noteq> []"
  by (simp add: rules_def PATTERNS_TYPE_1_def PATTERNS_TYPE_2_def)

text \<open>
  C6. \<open>detect_document_type\<close> and \<open>extract_data_by_type\<close> return for every page text:
  the first gives one of its three results, the second gives a record (no exception leaves
  it), with the keys of the selected table. On a text in which no field label of the
  selected table occurs, the record holds \<open>None\<close> under every rule field; the empty text
  is such a text, and it is of no type.
\<close>

theorem extract_total:
  "(\<exists>data. extract_data_by_type text doc_type = Inr data
         \<and> keys data
             = map fst (if doc_type = Some ''type_1'' then PATTERNS_TYPE_1 else PATTERNS_TYPE_2)
                 @ [''Document Type''])
   \<and> (detect_document_type text = None \<or> detect_document_type text = Some ''type_1''
        \<or> detect_document_type text = Some ''type_2'')
   \<and> ((\<forall>(field, pattern)
          \<in> set (if doc_type = Some ''type_1'' then PATTERNS_TYPE_1 else PATTERNS_TYPE_2).
          \<not> sublist field text)
        \<longrightarrow> extract_data_by_type text doc_type
            = Inr (map (\<lambda>(field, pattern). (field, None))
                     (if doc_type = Some ''type_1'' then PATTERNS_TYPE_1 else PATTERNS_TYPE_2)
                   @ [(''Document Type'', doc_type)]))
   \<and> detect_document_type [] = None
   \<and> extract_data_by_type [] doc_type
       = Inr (map (\<lambda>(field, pattern). (field, None))
                (if doc_type = Some ''type_1'' then PATTERNS_TYPE_1 else PATTERNS_TYPE_2)
              @ [(''Document Type'', doc_type)])"
proof -
  have r: "(if doc_type = Some ''type_1'' then PATTERNS_TYPE_1 else PATTERNS_TYPE_2)
             = rules doc_type"
    by (simp add: rules_def)
  have 1: "\<exists>data. extract_data_by_type text doc_type = Inr data
             \<and> keys data = map fst (rules doc_type) @ [''Document Type'']"
    using keys_extract [of "text" doc_type] by (simp add: extract_data_by_type_eq)
  have 2: "detect_document_type text = None \<or> detect_document_type text = Some ''type_1''
        \<or> detect_document_type text = Some ''type_2''"
    by (rule detect_cases)
  have 3: "extract_data_by_type t doc_type
            = Inr (map (\<lambda>(field, pattern). (field, None)) (rules doc_type)
                   @ [(''Document Type'', doc_type)])"
    if "\<forall>(field, pattern) \<in> set (rules doc_type). \<not> sublist field t" for t
    unfolding extract_data_by_type_eq no_label_stored [OF that] ..
  have "\<forall>(field, pattern) \<in> set (rules doc_type). \<not> sublist field []"
    using field_names_nonempty [of doc_type] by auto
  then have 5: "extract_data_by_type [] doc_type
       = Inr (map (\<lambda>(field, pattern). (field, None)) (rules doc_type)
              @ [(''Document Type'', doc_type)])"
    by (rule 3)
  have 4: "detect_document_type [] = None"
    by code_simp
  from 1 2 3 [of "text"] 4 5 show ?thesis unfolding r by blast
qed

theorem extract_total_witness:
  "\<not> sublist ''Store ID and Name'' ''%PDF-1.7 \<newline>1 0 obj << /Type /Catalog >> endobj''
   \<and> extract_data_by_type ''%PDF-1.7 \<newline>1 0 obj << /Type /Catalog >> endobj'' (Some ''type_1'')
     = Inr [(''Inspection'', None),
            (''Store ID and Name'', None),
            (''Tracker'', None),
            (''Inspector'', None),
            (''Project Team PIC'', None),
            (''Project Team Present'', None),
            (''Contractor PIC'', None),
            (''Contractor Present'', None),
            (''Issue Date'', None),
            (''Inspection Date'', None),
            (''Report Date'', None),
            (''Handover Date'', None),
            (''Document Type'', Some ''type_1'')]"
proof -
  let ?T = "''%PDF-1.7 \<newline>1 0 obj << /Type /Catalog >> endobj''"
  have h: "\<forall>(field, pattern) \<in> set PATTERNS_TYPE_1. \<not> sublist field ?T"
    by code_simp
  have m: "map (\<lambda>(field, pattern). (field, None :: string option)) PATTERNS_TYPE_1
             = [(''Inspection'', None),
            (''Store ID and Name'', None),
            (''Tracker'', None),
            (''Inspector'', None),
            (''Project Team PIC'', None),
            (''Project Team Present'', None),
            (''Contractor PIC'', None),
            (''Contractor Present'', None),
            (''Issue Date'', None),
            (''Inspection Date'', None),
            (''Report Date'', None),
            (''Handover Date'', None)]"
    by (simp add: PATTERNS_TYPE_1_def)
  from extract_total [of ?T "Some ''type_1''"] h
  have "extract_data_by_type ?T (Some ''type_1'')
          = Inr (map (\<lambda>(field, pattern). (field, None)) PATTERNS_TYPE_1
                 @ [(''Document Type'', Some ''type_1'')])"
    by (simp only: if_True refl)
  moreover have "\<not> sublist ''Store ID and Name'' ?T"
    by code_simp
  ultimately show ?thesis unfolding m by simp
qed

end
